theory Spec2Isabelle
  imports
    Main
    "HOL-Library.Sublist"
    "HOL-Library.Char_ord"
    "HOL-Library.List_Lexorder"
    "HOL-Library.Multiset"
begin

section \<open>Strings as the script uses them\<close>

text \<open>
  The strings of \<^verbatim>\<open>shipScores.js\<close> are modelled as lists of code units from 0 to 255
  (ASCII and the Latin-1 supplement, which holds the accented letters of French).
  \<^verbatim>\<open>String.prototype.trim\<close> strips the white space and line terminators of that range
  from both ends: TAB, LF, VT, FF, CR, space and the no-break space U+00A0.
  \<^verbatim>\<open>toLowerCase\<close> folds the letters A to Z and the accented capitals U+00C0 to U+00DE, all
  but the multiplication sign U+00D7, onto the letter 32 places further.
  \<^verbatim>\<open>indexOf\<close> returns the first position of a substring or -1, and \<^verbatim>\<open><\<close> on strings is
  the lexicographic order of the code units.
\<close>

definition isWhiteSpace :: "char \<Rightarrow> bool" where
  "isWhiteSpace c =
     (c \<in> set [CHR '' '', CHR 0x09, CHR 0x0A, CHR 0x0B, CHR 0x0C, CHR 0x0D, CHR 0xA0])"

definition trim :: "string \<Rightarrow> string" where
  "trim s = rev (dropWhile isWhiteSpace (rev (dropWhile isWhiteSpace s)))"

definition toLowerChar :: "char \<Rightarrow> char" where
  "toLowerChar c =
     (let n = (of_char c :: nat)
      in if (65 \<le> n \<and> n \<le> 90) \<or> (192 \<le> n \<and> n \<le> 222 \<and> n \<noteq> 215)
         then char_of (n + 32) else c)"

definition toLowerCase :: "string \<Rightarrow> string" where
  "toLowerCase s = map toLowerChar s"

fun indexOf :: "string \<Rightarrow> string \<Rightarrow> int" where
  "indexOf [] q = (if q = [] then 0 else -1)"
| "indexOf (c # cs) q =
     (if prefix q (c # cs) then 0
      else (let r = indexOf cs q in if r = -1 then -1 else r + 1))"

fun digitsOf :: "nat \<Rightarrow> string" where
  "digitsOf n =
     (if n < 10 then [char_of (48 + n)] else digitsOf (n div 10) @ [char_of (48 + n mod 10)])"

text \<open>\<^verbatim>\<open>String(n)\<close> for a whole number \<open>n\<close> (below the size where JavaScript switches to
  exponent notation).\<close>

definition String_of_int :: "int \<Rightarrow> string" where
  "String_of_int n = (if n < 0 then CHR ''-'' # digitsOf (nat (- n)) else digitsOf (nat n))"


section \<open>Helpers of the lazy inspection history\<close>

text \<open>\<^verbatim>\<open>normalizeGuid(g)\<close>: \<^verbatim>\<open>String(g || "").trim().replace(/[{}]/g, "")\<close>.\<close>

definition normalizeGuid :: "string \<Rightarrow> string" where
  "normalizeGuid g = filter (\<lambda>c. c \<noteq> CHR ''{'' \<and> c \<noteq> CHR ''}'') (trim g)"

text \<open>\<^verbatim>\<open>dateOnly(isoDateTime)\<close>: the first ten characters when there are that many.\<close>

definition dateOnly :: "string \<Rightarrow> string" where
  "dateOnly s = (if length s \<ge> 10 then take 10 s else s)"

text \<open>
  \<^verbatim>\<open>formatScore(v)\<close>. The score column of an incident is a whole number or null;
  \<open>None\<close> is null (and undefined).
\<close>

definition formatScore :: "int option \<Rightarrow> string" where
  "formatScore v = (case v of None \<Rightarrow> [] | Some n \<Rightarrow> String_of_int n @ ''/100'')"

text \<open>
  The host environment of \<^verbatim>\<open>isWithinLastYears\<close>: what \<^verbatim>\<open>Date.parse\<close> answers for a
  string (\<open>None\<close> is NaN) and the UTC calendar date of \<^verbatim>\<open>new Date()\<close>
  (month 0 to 11, day 1 to 31).
\<close>

record env =
  Date_parse :: "string \<Rightarrow> int option"
  nowUTCFullYear :: int
  nowUTCMonth :: int
  nowUTCDate :: int

text \<open>
  \<^verbatim>\<open>Date.UTC(year, month, date)\<close> in milliseconds, for a month from 0 to 11: the day
  number of the first of the month in the proleptic Gregorian calendar, plus \<open>date - 1\<close>
  days (a day past the end of the month runs into the next one, as in JavaScript).
  Years 0 to 99 stand for 1900 to 1999.
\<close>

definition Date_UTC :: "int \<Rightarrow> int \<Rightarrow> int \<Rightarrow> int" where
  "Date_UTC year month dt =
     (let y0 = (if 0 \<le> year \<and> year \<le> 99 then 1900 + year else year);
          y = (if month < 2 then y0 - 1 else y0);
          mp = (if month < 2 then month + 10 else month - 2);
          era = y div 400;
          yoe = y mod 400;
          doy = (153 * mp + 2) div 5;
          doe = yoe * 365 + yoe div 4 - yoe div 100 + doy;
          days = era * 146097 + doe - 719468 + (dt - 1)
      in days * 86400000)"

definition isWithinLastYears :: "env \<Rightarrow> string \<Rightarrow> int \<Rightarrow> bool" where
  "isWithinLastYears e isoDateTime years =
     (if isoDateTime = [] then False
      else case Date_parse e isoDateTime of
             None \<Rightarrow> False
           | Some dtMs \<Rightarrow>
               (let y = (if years = 0 then 5 else years);
                    cutoffUtcMs = Date_UTC (nowUTCFullYear e - y) (nowUTCMonth e) (nowUTCDate e)
                in dtMs \<ge> cutoffUtcMs))"


section \<open>The lazy inspection cache\<close>

text \<open>One row of the rendered history, \<^verbatim>\<open>{date, score}\<close>.\<close>

record history_row =
  date :: string
  score :: string

text \<open>
  The value a load resolves with: \<^verbatim>\<open>{rows: [...]}\<close> has \<open>r_error = False\<close> (no
  \<^verbatim>\<open>error\<close> property), \<^verbatim>\<open>{rows: [], error: true}\<close> has \<open>r_error = True\<close>.
\<close>

record load_result =
  r_rows :: "history_row list"
  r_error :: bool

text \<open>A promise is named by its position in the store of promises.\<close>

type_synonym handle = nat

text \<open>An entry of \<^verbatim>\<open>__InspectionCache\<close>: \<^verbatim>\<open>{loaded, loading, rows, promise}\<close>.\<close>

record cache_entry =
  loaded :: bool
  loading :: bool
  rows :: "history_row list"
  promise :: "handle option"

text \<open>What a rejected request carries: an HTTP status with its text, or anything else.\<close>

datatype jserror = HttpError int string | OtherError

text \<open>
  A promise returned by \<^verbatim>\<open>loadInspectionHistoryForVessel\<close>: still waiting for the
  request of a vessel, fulfilled with a result, or rejected.
\<close>

datatype promise_state = Pending string | Fulfilled load_result | Rejected jserror

text \<open>A row of the incidents response; \<open>None\<close> fields are null or absent.\<close>

record incident =
  ethi_inspectionenddateandtime :: "string option"
  ethi_inspectionscore :: "int option"

text \<open>
  What the incidents request resolves with: an array of rows (a null element is \<open>None\<close>),
  an object whose \<^verbatim>\<open>value\<close> is an array or is not one, or no object at all.
\<close>

datatype odata =
    JArray "incident option list"
  | JObject "incident option list option"
  | JNull

text \<open>
  The state the module keeps: \<^verbatim>\<open>__InspectionCache\<close>, the promises it has created, and
  the calls of \<^verbatim>\<open>fetchIncidentsWithFallback(vesselId)\<close> made so far, oldest first.
\<close>

record cache_state =
  InspectionCache :: "string \<rightharpoonup> cache_entry"
  promises :: "promise_state list"
  fetchLog :: "string list"

definition initial :: cache_state where
  "initial = \<lparr>InspectionCache = Map.empty, promises = [], fetchLog = []\<rparr>"

text \<open>\<^verbatim>\<open>Promise.resolve(v)\<close>: a new promise that is fulfilled already.\<close>

definition Promise_resolve :: "load_result \<Rightarrow> cache_state \<Rightarrow> handle \<times> cache_state" where
  "Promise_resolve v st = (length (promises st), st\<lparr>promises := promises st @ [Fulfilled v]\<rparr>)"

text \<open>
  Lines 495 to 536: the request is sent, the promise \<open>p\<close> of its
  \<^verbatim>\<open>.then(...).catch(...)\<close> chain is created pending, and the entry of the vessel
  becomes \<^verbatim>\<open>{loaded: false, loading: true, rows: [], promise: p}\<close>.
\<close>

definition startFetch :: "string \<Rightarrow> cache_state \<Rightarrow> handle \<times> cache_state" where
  "startFetch vesselId st =
     (let p = length (promises st)
      in (p, st\<lparr>InspectionCache := (InspectionCache st)(vesselId \<mapsto>
                     \<lparr>loaded = False, loading = True, rows = [], promise = Some p\<rparr>),
                  promises := promises st @ [Pending vesselId],
                  fetchLog := fetchLog st @ [vesselId]\<rparr>))"

definition loadInspectionHistoryForVessel :: "string \<Rightarrow> cache_state \<Rightarrow> handle \<times> cache_state" where
  "loadInspectionHistoryForVessel vesselIdRaw st =
     (let vesselId = normalizeGuid vesselIdRaw
      in if vesselId = [] then Promise_resolve \<lparr>r_rows = [], r_error = False\<rparr> st
         else case InspectionCache st vesselId of
                None \<Rightarrow> startFetch vesselId st
              | Some c \<Rightarrow>
                  if loaded c then Promise_resolve \<lparr>r_rows = rows c, r_error = False\<rparr> st
                  else (case promise c of
                          Some p \<Rightarrow> if loading c then (p, st) else startFetch vesselId st
                        | None \<Rightarrow> startFetch vesselId st))"

text \<open>\<^verbatim>\<open>odataToArray(dataOrRows)\<close>.\<close>

definition odataToArray :: "odata \<Rightarrow> incident option list" where
  "odataToArray dataOrRows =
     (case dataOrRows of
        JArray rs \<Rightarrow> rs
      | JObject (Some rs) \<Rightarrow> rs
      | JObject None \<Rightarrow> []
      | JNull \<Rightarrow> [])"

text \<open>
  The \<^verbatim>\<open>rows.forEach\<close> of the success handler: a row with no end date, or with one
  older than five years, is skipped; the others are pushed onto \<^verbatim>\<open>outRows\<close>.
\<close>

fun collectRows :: "env \<Rightarrow> incident option list \<Rightarrow> history_row list \<Rightarrow> history_row list" where
  "collectRows e [] outRows = outRows"
| "collectRows e (None # rs) outRows = collectRows e rs outRows"
| "collectRows e (Some r # rs) outRows =
     (case ethi_inspectionenddateandtime r of
        None \<Rightarrow> collectRows e rs outRows
      | Some isoDate \<Rightarrow>
          if isoDate = [] then collectRows e rs outRows
          else if \<not> isWithinLastYears e isoDate 5 then collectRows e rs outRows
          else collectRows e rs
                 (outRows @ [\<lparr>date = dateOnly isoDate, score = formatScore (ethi_inspectionscore r)\<rparr>]))"

text \<open>
  \<^verbatim>\<open>outRows.sort(...)\<close> with the comparator of lines 512 to 514: a stable sort that
  puts the greater date first. \<open>placeRow\<close> puts a row in front of the rows that followed
  it, after those with a strictly greater date.
\<close>

fun placeRow :: "history_row \<Rightarrow> history_row list \<Rightarrow> history_row list" where
  "placeRow r [] = [r]"
| "placeRow r (x # xs) = (if date r < date x then x # placeRow r xs else r # x # xs)"

definition sortRows :: "history_row list \<Rightarrow> history_row list" where
  "sortRows rs = foldr placeRow rs []"

text \<open>The success handler (lines 496 to 518) and the failure handler (lines 519 to 533).\<close>

definition onFulfilled :: "env \<Rightarrow> string \<Rightarrow> odata \<Rightarrow> cache_state \<Rightarrow> load_result \<times> cache_state" where
  "onFulfilled e vesselId dataOrRows st =
     (let outRows = sortRows (collectRows e (odataToArray dataOrRows) [])
      in (\<lparr>r_rows = outRows, r_error = False\<rparr>,
          st\<lparr>InspectionCache := (InspectionCache st)(vesselId \<mapsto>
                \<lparr>loaded = True, loading = False, rows = outRows, promise = None\<rparr>)\<rparr>))"

definition onRejected :: "string \<Rightarrow> jserror \<Rightarrow> cache_state \<Rightarrow> load_result \<times> cache_state" where
  "onRejected vesselId err st =
     (\<lparr>r_rows = [], r_error = True\<rparr>,
      st\<lparr>InspectionCache := (InspectionCache st)(vesselId \<mapsto>
            \<lparr>loaded = False, loading = False, rows = [], promise = None\<rparr>)\<rparr>)"

text \<open>
  The chain \<^verbatim>\<open>fetchIncidentsWithFallback(vesselId).then(A).catch(B)\<close>: \<open>.then\<close> runs the
  success handler on a fulfilled request and lets a rejection through; \<open>.catch\<close> runs the
  failure handler on a rejection and lets a value through.
\<close>

definition thenStage ::
  "env \<Rightarrow> string \<Rightarrow> jserror + odata \<Rightarrow> cache_state \<Rightarrow> (jserror + load_result) \<times> cache_state" where
  "thenStage e vesselId outcome st =
     (case outcome of
        Inl err \<Rightarrow> (Inl err, st)
      | Inr dataOrRows \<Rightarrow> (let (res, st') = onFulfilled e vesselId dataOrRows st in (Inr res, st')))"

definition catchStage ::
  "string \<Rightarrow> jserror + load_result \<Rightarrow> cache_state \<Rightarrow> (jserror + load_result) \<times> cache_state" where
  "catchStage vesselId outcome st =
     (case outcome of
        Inl err \<Rightarrow> (let (res, st') = onRejected vesselId err st in (Inr res, st'))
      | Inr res \<Rightarrow> (Inr res, st))"

text \<open>
  The request behind the pending promise \<open>p\<close> completes with \<open>outcome\<close> (\<open>Inl\<close> a
  rejection, \<open>Inr\<close> the response): the chain runs and \<open>p\<close> settles with what the chain
  ends in. The outcome is that of the promise \<^verbatim>\<open>fetchIncidentsWithFallback\<close> returns, so
  after its own second try with the raw GUID when the first try ends in a 400. A promise
  that is not pending has no request left to complete.
\<close>

definition settle :: "env \<Rightarrow> handle \<Rightarrow> jserror + odata \<Rightarrow> cache_state \<Rightarrow> cache_state" where
  "settle e p outcome st =
     (if p < length (promises st) then
        (case promises st ! p of
           Pending vesselId \<Rightarrow>
             (let (r1, st1) = thenStage e vesselId outcome st;
                  (r2, st2) = catchStage vesselId r1 st1
              in st2\<lparr>promises := (promises st2)
                      [p := (case r2 of Inr res \<Rightarrow> Fulfilled res | Inl err \<Rightarrow> Rejected err)]\<rparr>)
         | Fulfilled v \<Rightarrow> st
         | Rejected err \<Rightarrow> st)
      else st)"

text \<open>The events the cache sees, and a run of them in order.\<close>

datatype event = Call string | Settle handle "jserror + odata"

fun step :: "env \<Rightarrow> event \<Rightarrow> cache_state \<Rightarrow> cache_state" where
  "step e (Call vesselIdRaw) st = snd (loadInspectionHistoryForVessel vesselIdRaw st)"
| "step e (Settle p outcome) st = settle e p outcome st"

definition run :: "env \<Rightarrow> event list \<Rightarrow> cache_state \<Rightarrow> cache_state" where
  "run e evs st = fold (step e) evs st"

text \<open>How often the request function has been called for a vessel.\<close>

definition fetchCount :: "cache_state \<Rightarrow> string \<Rightarrow> nat" where
  "fetchCount st vesselId = count_list (fetchLog st) vesselId"


section \<open>The browse tree\<close>

text \<open>
  A \<^verbatim>\<open><details>\<close> element of the tree: the text of its summary, its \<^verbatim>\<open>open\<close> flag and
  its \<^verbatim>\<open>style.display\<close> (empty when shown, \<^verbatim>\<open>none\<close> when hidden). A ship carries its
  \<^verbatim>\<open>data-vessel-id\<close>; a liner holds its ships in document order.
\<close>

record details =
  summaryText :: string
  "open" :: bool
  display :: string

record ship = details +
  vesselId :: string

record liner = details +
  ships :: "ship list"

text \<open>\<^verbatim>\<open>textOf(getSummary(d)).toLowerCase()\<close>.\<close>

definition lowerName :: "'a details_scheme \<Rightarrow> string" where
  "lowerName d = toLowerCase (trim (summaryText d))"

text \<open>\<^verbatim>\<open>!q || name.indexOf(q) !== -1\<close>.\<close>

definition nameMatch :: "string \<Rightarrow> 'a details_scheme \<Rightarrow> bool" where
  "nameMatch q d = (q = [] \<or> indexOf (lowerName d) q \<noteq> -1)"

text \<open>
  The \<^verbatim>\<open>shipMatches.forEach\<close> of lines 732 to 741, over the pairs of a ship and its
  match, with the counter \<^verbatim>\<open>matchedShips\<close> threaded through.
\<close>

fun showShips :: "string \<Rightarrow> bool \<Rightarrow> (ship \<times> bool) list \<Rightarrow> nat \<Rightarrow> ship list \<times> nat" where
  "showShips q linerMatch [] matchedShips = ([], matchedShips)"
| "showShips q linerMatch ((s, m) # ms) matchedShips =
     (let shipVisible = (q = [] \<or> linerMatch \<or> m)
      in if \<not> shipVisible then
           (let (ss, n) = showShips q linerMatch ms matchedShips
            in (s\<lparr>display := ''none'', open := False\<rparr> # ss, n))
         else
           (let (ss, n) = showShips q linerMatch ms (matchedShips + 1)
            in (s\<lparr>display := []\<rparr> # ss, n)))"

text \<open>
  The body of \<^verbatim>\<open>linerEls().forEach\<close> (lines 703 to 751) for one liner, with the
  counters \<^verbatim>\<open>matchedLiners\<close> and \<^verbatim>\<open>matchedShips\<close> before and after.
\<close>

definition filterLiner :: "string \<Rightarrow> liner \<Rightarrow> nat \<times> nat \<Rightarrow> liner \<times> nat \<times> nat" where
  "filterLiner q l counts =
     (case counts of (matchedLiners, matchedShips) \<Rightarrow>
        (let linerMatch = nameMatch q l;
             shipMatches = map (\<lambda>s. (s, nameMatch q s)) (ships l);
             anyShipMatch = list_ex snd shipMatches;
             linerVisible = (q = [] \<or> linerMatch \<or> anyShipMatch)
         in if \<not> linerVisible then
              (l\<lparr>display := ''none'', open := False,
                 ships := map (\<lambda>s. s\<lparr>open := False, display := []\<rparr>) (ships l)\<rparr>,
               matchedLiners, matchedShips)
            else
              (let (ss, n) = showShips q linerMatch shipMatches matchedShips
               in if q \<noteq> [] then
                    (l\<lparr>display := [], open := True, ships := ss\<rparr>, matchedLiners + 1, n)
                  else
                    (l\<lparr>display := [], open := False,
                       ships := map (\<lambda>s. s\<lparr>open := False\<rparr>) ss\<rparr>,
                     matchedLiners + 1, n))))"

fun filterLiners :: "string \<Rightarrow> liner list \<Rightarrow> nat \<times> nat \<Rightarrow> liner list \<times> nat \<times> nat" where
  "filterLiners q [] counts = ([], counts)"
| "filterLiners q (l # ls) counts =
     (let (l', counts') = filterLiner q l counts;
          (ls', counts'') = filterLiners q ls counts'
      in (l' # ls', counts''))"

text \<open>
  \<^verbatim>\<open>applyFilter(raw)\<close>: the tree after the pass, and the \<^verbatim>\<open>matchedLiners\<close> and
  \<^verbatim>\<open>matchedShips\<close> it hands to \<^verbatim>\<open>setStatusText\<close>.
\<close>

definition applyFilter :: "string \<Rightarrow> liner list \<Rightarrow> liner list \<times> nat \<times> nat" where
  "applyFilter raw tree = filterLiners (toLowerCase (trim raw)) tree (0, 0)"

text \<open>
  The \<^verbatim>\<open>toggle\<close> listener of a ship (lines 553 to 586), as far as the cache goes: a closed
  ship returns at once, an open one calls \<^verbatim>\<open>loadInspectionHistoryForVessel\<close>.
\<close>

definition shipToggle :: "ship \<Rightarrow> cache_state \<Rightarrow> cache_state" where
  "shipToggle s st =
     (if \<not> open s then st else snd (loadInspectionHistoryForVessel (vesselId s) st))"

text \<open>The \<^verbatim>\<open>toggle\<close> listener of a liner (lines 606 to 615).\<close>

definition linerToggle :: "liner \<Rightarrow> liner" where
  "linerToggle l =
     (if \<not> open l then l\<lparr>ships := map (\<lambda>s. s\<lparr>open := False\<rparr>) (ships l)\<rparr> else l)"

text \<open>The page: the liners of \<^verbatim>\<open>#browseTree\<close> and the state of the cache.\<close>

record page =
  browseTree :: "liner list"
  inspections :: cache_state

text \<open>
  The user toggles the liner at position \<open>i\<close>: the browser flips its \<^verbatim>\<open>open\<close> flag, the
  listener of the liner runs, and each ship whose flag the listener changed gets its own
  \<^verbatim>\<open>toggle\<close> event, handled by the listener of the ship.
\<close>

definition toggleLiner :: "nat \<Rightarrow> page \<Rightarrow> page" where
  "toggleLiner i pg =
     (if i < length (browseTree pg) then
        (let l = browseTree pg ! i;
             l1 = l\<lparr>open := \<not> open l\<rparr>;
             l2 = linerToggle l1;
             changed = map snd (filter (\<lambda>(s, s'). open s \<noteq> open s') (zip (ships l1) (ships l2)))
         in \<lparr>browseTree = (browseTree pg)[i := l2],
             inspections = fold shipToggle changed (inspections pg)\<rparr>)
      else pg)"


section \<open>Notions used in the statements and proofs\<close>

text \<open>Every pending promise waits for a vessel with a non-empty identifier whose entry is
  the loading entry that holds this very promise.\<close>

definition wellformed :: "cache_state \<Rightarrow> bool" where
  "wellformed st =
     (\<forall>p < length (promises st). \<forall>v. promises st ! p = Pending v \<longrightarrow>
        v \<noteq> [] \<and>
        InspectionCache st v = Some \<lparr>loaded = False, loading = True, rows = [], promise = Some p\<rparr>)"

text \<open>The promise \<open>p\<close> is pending for the vessel \<open>v\<close>, in a well-formed state where the
  request function has been called \<open>n\<close> times for \<open>v\<close>.\<close>

definition inflight :: "handle \<Rightarrow> string \<Rightarrow> nat \<Rightarrow> cache_state \<Rightarrow> bool" where
  "inflight p v n st =
     (wellformed st \<and> p < length (promises st) \<and> promises st ! p = Pending v \<and>
      fetchCount st v = n)"

text \<open>No promise of the store is rejected.\<close>

definition neverRejected :: "cache_state \<Rightarrow> bool" where
  "neverRejected st = (\<forall>q < length (promises st). \<forall>err. promises st ! q \<noteq> Rejected err)"

text \<open>A host for the examples: the clock reads 26 February 2026 (UTC), and \<^verbatim>\<open>Date.parse\<close>
  knows the two time stamps of the example response.\<close>

definition exampleEnv :: env where
  "exampleEnv =
     \<lparr>Date_parse = (\<lambda>s. if s = ''2025-03-15T10:00:00Z'' then Some 1742032800000
                        else if s = ''2015-01-01T00:00:00Z'' then Some 1420070400000
                        else None),
      nowUTCFullYear = 2026, nowUTCMonth = 1, nowUTCDate = 26\<rparr>"

text \<open>The entry of the vessel \<open>v\<close> is the one the failure handler writes (line 531).\<close>

definition failedAt :: "string \<Rightarrow> cache_state \<Rightarrow> bool" where
  "failedAt v st =
     (wellformed st \<and> v \<noteq> [] \<and>
      InspectionCache st v = Some \<lparr>loaded = False, loading = False, rows = [], promise = None\<rparr>)"

text \<open>The \<^verbatim>\<open>{date, score}\<close> of an incident, as lines 506 to 509 build it.\<close>

definition rowOf :: "incident \<Rightarrow> history_row" where
  "rowOf r =
     \<lparr>date = dateOnly (case ethi_inspectionenddateandtime r of None \<Rightarrow> [] | Some s \<Rightarrow> s),
      score = formatScore (ethi_inspectionscore r)\<rparr>"

text \<open>The incidents the success handler keeps: an end date that is present, parses, and is
  not older than five years.\<close>

definition keptIncident :: "env \<Rightarrow> incident \<Rightarrow> bool" where
  "keptIncident e r =
     (case ethi_inspectionenddateandtime r of
        None \<Rightarrow> False
      | Some s \<Rightarrow> s \<noteq> [] \<and> isWithinLastYears e s 5)"

text \<open>All rows of a response as \<^verbatim>\<open>{date, score}\<close>, in the order of the response, none left out.\<close>

definition fetchedRows :: "odata \<Rightarrow> history_row list" where
  "fetchedRows d = [rowOf r. Some r \<leftarrow> odataToArray d]"

text \<open>The rows of a response that the success handler keeps, in the order of the response.\<close>

definition recentRows :: "env \<Rightarrow> odata \<Rightarrow> history_row list" where
  "recentRows e d = [rowOf r. Some r \<leftarrow> odataToArray d, keptIncident e r]"

text \<open>An incidents response with an inspection of March 2025 and one of January 2015.\<close>

definition exampleResponse :: odata where
  "exampleResponse =
     JObject (Some [Some \<lparr>ethi_inspectionenddateandtime = Some ''2025-03-15T10:00:00Z'',
                          ethi_inspectionscore = Some 98\<rparr>,
                    Some \<lparr>ethi_inspectionenddateandtime = Some ''2015-01-01T00:00:00Z'',
                          ethi_inspectionscore = Some 90\<rparr>])"

text \<open>The state after the first load of the vessel \<^verbatim>\<open>shipA\<close> on a fresh page.\<close>

definition pendingShipA :: cache_state where
  "pendingShipA = snd (loadInspectionHistoryForVessel ''shipA'' initial)"

text \<open>\<^verbatim>\<open>shipVisible\<close> of line 733 for a ship of a liner that is shown.\<close>

definition shipShown :: "string \<Rightarrow> bool \<Rightarrow> ship \<Rightarrow> bool" where
  "shipShown q linerMatch s = (q = [] \<or> linerMatch \<or> nameMatch q s)"

text \<open>A ship of a shown liner after lines 733 to 740.\<close>

definition shipAfter :: "string \<Rightarrow> bool \<Rightarrow> ship \<Rightarrow> ship" where
  "shipAfter q linerMatch s =
     (if shipShown q linerMatch s then s\<lparr>display := []\<rparr>
      else s\<lparr>display := ''none'', open := False\<rparr>)"

text \<open>\<^verbatim>\<open>linerVisible\<close> of line 717.\<close>

definition linerShown :: "string \<Rightarrow> liner \<Rightarrow> bool" where
  "linerShown q l = (q = [] \<or> nameMatch q l \<or> list_ex (nameMatch q) (ships l))"

text \<open>A liner after one pass of the filter with the normalised query \<open>q\<close>.\<close>

definition linerAfter :: "string \<Rightarrow> liner \<Rightarrow> liner" where
  "linerAfter q l =
     (if \<not> linerShown q l then
        l\<lparr>display := ''none'', open := False,
          ships := map (\<lambda>s. s\<lparr>open := False, display := []\<rparr>) (ships l)\<rparr>
      else if q \<noteq> [] then
        l\<lparr>display := [], open := True, ships := map (shipAfter q (nameMatch q l)) (ships l)\<rparr>
      else
        l\<lparr>display := [], open := False,
          ships := map (\<lambda>s. s\<lparr>display := [], open := False\<rparr>) (ships l)\<rparr>)"

text \<open>What a liner adds to \<^verbatim>\<open>matchedShips\<close>.\<close>

definition shownShips :: "string \<Rightarrow> liner \<Rightarrow> nat" where
  "shownShips q l =
     (if linerShown q l then length (filter (shipShown q (nameMatch q l)) (ships l)) else 0)"

text \<open>What a liner adds to \<^verbatim>\<open>matchedLiners\<close>.\<close>

definition shownLiners :: "string \<Rightarrow> liner \<Rightarrow> nat" where
  "shownLiners q l = (if linerShown q l then 1 else 0)"

text \<open>The catalog with the single liner GroupX and its ships Ship1 and Ship2, as it is after
  the initial collapse: everything shown, everything closed.\<close>

definition catalogX :: "liner list" where
  "catalogX =
     [\<lparr>summaryText = ''GroupX'', open = False, display = [],
       ships = [\<lparr>summaryText = ''Ship1'', open = False, display = [], vesselId = ''id1''\<rparr>,
                \<lparr>summaryText = ''Ship2'', open = False, display = [], vesselId = ''id2''\<rparr>]\<rparr>]"

text \<open>A catalog whose liner is named in French capitals, with the accented letter U+00C8.\<close>

definition catalogFr :: "liner list" where
  "catalogFr =
     [\<lparr>summaryText = ''CROISI'' @ [CHR 0xC8] @ ''RES'', open = False, display = [],
       ships = [\<lparr>summaryText = ''Ship1'', open = False, display = [], vesselId = ''id1''\<rparr>,
                \<lparr>summaryText = ''Ship2'', open = False, display = [], vesselId = ''id2''\<rparr>]\<rparr>]"

text \<open>A liner shown and closed, with all its ships shown and closed.\<close>

definition collapsed :: "liner \<Rightarrow> liner" where
  "collapsed l =
     l\<lparr>display := [], open := False,
       ships := map (\<lambda>s. s\<lparr>display := [], open := False\<rparr>) (ships l)\<rparr>"

text \<open>The same catalog after the user has opened GroupX and both ships.\<close>

definition browsedX :: "liner list" where
  "browsedX =
     [\<lparr>summaryText = ''GroupX'', open = True, display = [],
       ships = [\<lparr>summaryText = ''Ship1'', open = True, display = [], vesselId = ''id1''\<rparr>,
                \<lparr>summaryText = ''Ship2'', open = True, display = [], vesselId = ''id2''\<rparr>]\<rparr>]"

text \<open>A page showing that tree while the history of \<^verbatim>\<open>shipA\<close> is loading.\<close>

definition pageX :: page where
  "pageX = \<lparr>browseTree = browsedX, inspections = pendingShipA\<rparr>"


section \<open>The cache: one request in flight for a vessel\<close>

lemma wellformed_initial: "wellformed initial"
  by (simp add: wellformed_def initial_def)

lemma load_empty:
  "normalizeGuid raw = [] \<Longrightarrow>
   loadInspectionHistoryForVessel raw st = Promise_resolve \<lparr>r_rows = [], r_error = False\<rparr> st"
  by (simp add: loadInspectionHistoryForVessel_def)

lemma load_loaded:
  "normalizeGuid raw \<noteq> [] \<Longrightarrow> InspectionCache st (normalizeGuid raw) = Some c \<Longrightarrow> loaded c \<Longrightarrow>
   loadInspectionHistoryForVessel raw st = Promise_resolve \<lparr>r_rows = rows c, r_error = False\<rparr> st"
  by (simp add: loadInspectionHistoryForVessel_def)

lemma load_join:
  "normalizeGuid raw \<noteq> [] \<Longrightarrow> InspectionCache st (normalizeGuid raw) = Some c \<Longrightarrow>
   \<not> loaded c \<Longrightarrow> loading c \<Longrightarrow> promise c = Some p \<Longrightarrow>
   loadInspectionHistoryForVessel raw st = (p, st)"
  by (simp add: loadInspectionHistoryForVessel_def)

lemma load_fetch:
  "normalizeGuid raw \<noteq> [] \<Longrightarrow>
   (\<And>c. InspectionCache st (normalizeGuid raw) = Some c \<Longrightarrow>
      \<not> loaded c \<and> (\<not> loading c \<or> promise c = None)) \<Longrightarrow>
   loadInspectionHistoryForVessel raw st = startFetch (normalizeGuid raw) st"
  by (cases "InspectionCache st (normalizeGuid raw)")
     (auto simp: loadInspectionHistoryForVessel_def Let_def split: option.splits)

lemma load_shape:
  obtains (empty) "normalizeGuid raw = []"
      "loadInspectionHistoryForVessel raw st = Promise_resolve \<lparr>r_rows = [], r_error = False\<rparr> st"
    | (cached) c where "normalizeGuid raw \<noteq> []" "InspectionCache st (normalizeGuid raw) = Some c"
      "loaded c"
      "loadInspectionHistoryForVessel raw st = Promise_resolve \<lparr>r_rows = rows c, r_error = False\<rparr> st"
    | (join) c p where "normalizeGuid raw \<noteq> []" "InspectionCache st (normalizeGuid raw) = Some c"
      "\<not> loaded c" "loading c" "promise c = Some p"
      "loadInspectionHistoryForVessel raw st = (p, st)"
    | (fetch) "normalizeGuid raw \<noteq> []"
      "\<And>c. InspectionCache st (normalizeGuid raw) = Some c \<Longrightarrow>
         \<not> loaded c \<and> (\<not> loading c \<or> promise c = None)"
      "loadInspectionHistoryForVessel raw st = startFetch (normalizeGuid raw) st"
proof (cases "normalizeGuid raw = []")
  case True
  then show ?thesis using empty load_empty by blast
next
  case ne: False
  show ?thesis
  proof (cases "InspectionCache st (normalizeGuid raw)")
    case None
    then show ?thesis using fetch[OF ne] load_fetch[OF ne, of st] by simp
  next
    case (Some c)
    show ?thesis
    proof (cases "loaded c")
      case True
      then show ?thesis using cached[OF ne Some] load_loaded[OF ne Some] by blast
    next
      case nl: False
      show ?thesis
      proof (cases "loading c \<and> promise c \<noteq> None")
        case True
        then obtain p where "promise c = Some p" by auto
        then show ?thesis using join[OF ne Some nl] load_join[OF ne Some nl] True by blast
      next
        case False
        then have "\<And>c'. InspectionCache st (normalizeGuid raw) = Some c' \<Longrightarrow>
           \<not> loaded c' \<and> (\<not> loading c' \<or> promise c' = None)"
          using Some nl by auto
        then show ?thesis using fetch[OF ne] load_fetch[OF ne, of st] by blast
      qed
    qed
  qed
qed

lemma wellformed_Promise_resolve:
  "wellformed st \<Longrightarrow> wellformed (snd (Promise_resolve v st))"
  by (auto simp: wellformed_def Promise_resolve_def nth_append)

lemma wellformed_startFetch:
  assumes "wellformed st" "v \<noteq> []"
    and "\<And>c. InspectionCache st v = Some c \<Longrightarrow> \<not> loaded c \<and> (\<not> loading c \<or> promise c = None)"
  shows "wellformed (snd (startFetch v st))"
  unfolding wellformed_def
proof (intro allI impI)
  fix q w
  let ?st' = "snd (startFetch v st)"
  assume q: "q < length (promises ?st')" and pw: "promises ?st' ! q = Pending w"
  have len: "promises ?st' = promises st @ [Pending v]"
    and cache: "InspectionCache ?st' = (InspectionCache st)(v \<mapsto>
        \<lparr>loaded = False, loading = True, rows = [], promise = Some (length (promises st))\<rparr>)"
    by (simp_all add: startFetch_def Let_def)
  show "w \<noteq> [] \<and> InspectionCache ?st' w =
          Some \<lparr>loaded = False, loading = True, rows = [], promise = Some q\<rparr>"
  proof (cases "q < length (promises st)")
    case True
    then have old: "promises st ! q = Pending w" using pw len by (simp add: nth_append)
    then have w: "w \<noteq> []" "InspectionCache st w =
        Some \<lparr>loaded = False, loading = True, rows = [], promise = Some q\<rparr>"
      using assms(1) True unfolding wellformed_def by blast+
    have "w \<noteq> v" using assms(3)[of "\<lparr>loaded = False, loading = True, rows = [], promise = Some q\<rparr>"] w(2)
      by auto
    then show ?thesis using w cache by simp
  next
    case False
    then have "q = length (promises st)" using q len by simp
    then show ?thesis using pw len cache assms(2) by simp
  qed
qed

lemma wellformed_load:
  assumes "wellformed st"
  shows "wellformed (snd (loadInspectionHistoryForVessel raw st))"
proof (cases raw st rule: load_shape)
  case empty
  then show ?thesis using assms by (simp add: wellformed_Promise_resolve)
next
  case (cached c)
  then show ?thesis using assms by (simp add: wellformed_Promise_resolve)
next
  case (join c p)
  then show ?thesis using assms by simp
next
  case fetch
  then show ?thesis using wellformed_startFetch[OF assms fetch(1)] by simp
qed

lemma settle_failure:
  assumes "p < length (promises st)" "promises st ! p = Pending v"
  shows "settle e p (Inl err) st =
           st\<lparr>InspectionCache := (InspectionCache st)(v \<mapsto>
                 \<lparr>loaded = False, loading = False, rows = [], promise = None\<rparr>),
              promises := (promises st)[p := Fulfilled \<lparr>r_rows = [], r_error = True\<rparr>]\<rparr>"
  using assms
  by (simp add: settle_def thenStage_def catchStage_def onRejected_def)

lemma settle_success:
  assumes "p < length (promises st)" "promises st ! p = Pending v"
  shows "settle e p (Inr d) st =
           st\<lparr>InspectionCache := (InspectionCache st)(v \<mapsto>
                 \<lparr>loaded = True, loading = False,
                  rows = sortRows (collectRows e (odataToArray d) []), promise = None\<rparr>),
              promises := (promises st)[p := Fulfilled
                 \<lparr>r_rows = sortRows (collectRows e (odataToArray d) []), r_error = False\<rparr>]\<rparr>"
  using assms
  by (simp add: settle_def thenStage_def catchStage_def onFulfilled_def Let_def)

lemma settle_idle:
  assumes "\<not> (p < length (promises st) \<and> (\<exists>v. promises st ! p = Pending v))"
  shows "settle e p outcome st = st"
  using assms by (cases "promises st ! p") (simp_all add: settle_def)

lemma settle_shape:
  assumes "p < length (promises st)" "promises st ! p = Pending v"
  obtains c r where
    "settle e p outcome st =
       st\<lparr>InspectionCache := (InspectionCache st)(v \<mapsto> c),
          promises := (promises st)[p := Fulfilled r]\<rparr>"
proof (cases outcome)
  case (Inl err)
  then show ?thesis using settle_failure[OF assms] that by blast
next
  case (Inr d)
  then show ?thesis using settle_success[OF assms] that by blast
qed

lemma wellformed_settle:
  assumes "wellformed st"
  shows "wellformed (settle e p outcome st)"
proof (cases "p < length (promises st) \<and> (\<exists>v. promises st ! p = Pending v)")
  case False
  then show ?thesis using assms settle_idle[of p st e outcome] by simp
next
  case True
  then obtain v where p: "p < length (promises st)" "promises st ! p = Pending v" by auto
  obtain c r where eq: "settle e p outcome st =
       st\<lparr>InspectionCache := (InspectionCache st)(v \<mapsto> c),
          promises := (promises st)[p := Fulfilled r]\<rparr>"
    using settle_shape[OF p] by blast
  have pv: "InspectionCache st v =
      Some \<lparr>loaded = False, loading = True, rows = [], promise = Some p\<rparr>"
    using assms p unfolding wellformed_def by blast
  show ?thesis
    unfolding wellformed_def eq
  proof (intro allI impI)
    fix q w
    assume q: "q < length (promises (st\<lparr>InspectionCache := (InspectionCache st)(v \<mapsto> c),
          promises := (promises st)[p := Fulfilled r]\<rparr>))"
      and pw: "promises (st\<lparr>InspectionCache := (InspectionCache st)(v \<mapsto> c),
          promises := (promises st)[p := Fulfilled r]\<rparr>) ! q = Pending w"
    have qp: "q \<noteq> p" using pw p(1) by auto
    then have old: "q < length (promises st)" "promises st ! q = Pending w"
      using q pw by simp_all
    then have w: "w \<noteq> []" "InspectionCache st w =
        Some \<lparr>loaded = False, loading = True, rows = [], promise = Some q\<rparr>"
      using assms unfolding wellformed_def by blast+
    have "w \<noteq> v" using w(2) pv qp by auto
    then show "w \<noteq> [] \<and>
         InspectionCache (st\<lparr>InspectionCache := (InspectionCache st)(v \<mapsto> c),
          promises := (promises st)[p := Fulfilled r]\<rparr>) w =
         Some \<lparr>loaded = False, loading = True, rows = [], promise = Some q\<rparr>"
      using w by simp
  qed
qed

lemma wellformed_step: "wellformed st \<Longrightarrow> wellformed (step e ev st)"
  by (cases ev) (simp_all add: wellformed_load wellformed_settle)

lemma wellformed_run: "wellformed st \<Longrightarrow> wellformed (run e evs st)"
  unfolding run_def by (induction evs arbitrary: st) (simp_all add: wellformed_step)

lemma inflight_entry:
  "inflight p v n st \<Longrightarrow>
   v \<noteq> [] \<and> InspectionCache st v =
     Some \<lparr>loaded = False, loading = True, rows = [], promise = Some p\<rparr>"
  unfolding inflight_def wellformed_def by blast

lemma inflight_join:
  assumes "inflight p v n st" "normalizeGuid raw = v"
  shows "loadInspectionHistoryForVessel raw st = (p, st)"
proof -
  have "normalizeGuid raw \<noteq> []"
    "InspectionCache st (normalizeGuid raw) =
       Some \<lparr>loaded = False, loading = True, rows = [], promise = Some p\<rparr>"
    using inflight_entry[OF assms(1)] assms(2) by simp_all
  then show ?thesis by (rule load_join) simp_all
qed

lemma inflight_load:
  assumes "inflight p v n st"
  shows "inflight p v n (snd (loadInspectionHistoryForVessel raw st))"
proof (cases "normalizeGuid raw = v")
  case True
  then show ?thesis using inflight_join[OF assms] assms by simp
next
  case False
  have wf: "wellformed (snd (loadInspectionHistoryForVessel raw st))"
    using assms wellformed_load unfolding inflight_def by blast
  have p: "p < length (promises st)" "promises st ! p = Pending v" "fetchCount st v = n"
    using assms unfolding inflight_def by blast+
  show ?thesis
  proof (cases raw st rule: load_shape)
    case empty
    then show ?thesis using wf p
      by (simp add: inflight_def Promise_resolve_def nth_append fetchCount_def)
  next
    case (cached c)
    then show ?thesis using wf p
      by (simp add: inflight_def Promise_resolve_def nth_append fetchCount_def)
  next
    case (join c q)
    then show ?thesis using assms by simp
  next
    case fetch
    then show ?thesis using wf p False
      by (simp add: inflight_def startFetch_def Let_def nth_append fetchCount_def)
  qed
qed

lemma inflight_settle:
  assumes "inflight p v n st" "q \<noteq> p"
  shows "inflight p v n (settle e q outcome st)"
proof (cases "q < length (promises st) \<and> (\<exists>w. promises st ! q = Pending w)")
  case False
  then show ?thesis using assms settle_idle[of q st e outcome] by simp
next
  case True
  then obtain w where q: "q < length (promises st)" "promises st ! q = Pending w" by auto
  obtain c r where eq: "settle e q outcome st =
       st\<lparr>InspectionCache := (InspectionCache st)(w \<mapsto> c),
          promises := (promises st)[q := Fulfilled r]\<rparr>"
    using settle_shape[OF q] by blast
  have wf: "wellformed (settle e q outcome st)"
    using assms wellformed_settle unfolding inflight_def by blast
  have p: "p < length (promises st)" "promises st ! p = Pending v" "fetchCount st v = n"
    using assms unfolding inflight_def by blast+
  show ?thesis
    using wf p assms(2) unfolding inflight_def eq
    by (simp add: fetchCount_def)
qed

lemma inflight_step:
  assumes "inflight p v n st" "\<And>outcome. ev \<noteq> Settle p outcome"
  shows "inflight p v n (step e ev st)"
proof (cases ev)
  case (Call raw)
  then show ?thesis using inflight_load[OF assms(1)] by simp
next
  case (Settle q outcome)
  then have "q \<noteq> p" using assms(2) by auto
  then show ?thesis using inflight_settle[OF assms(1)] Settle by simp
qed

lemma inflight_run:
  assumes "inflight p v n st" "\<And>outcome. Settle p outcome \<notin> set evs"
  shows "inflight p v n (run e evs st)"
  using assms unfolding run_def
proof (induction evs arbitrary: st)
  case Nil
  then show ?case by simp
next
  case (Cons ev evs)
  have "inflight p v n (step e ev st)"
    using Cons.prems by (intro inflight_step) auto
  then show ?case using Cons.IH Cons.prems(2) by simp
qed

lemma startFetch_inflight:
  assumes "wellformed st" "normalizeGuid raw \<noteq> []"
    and "loadInspectionHistoryForVessel raw st = (p, st1)"
    and "fetchLog st1 \<noteq> fetchLog st"
  shows "inflight p (normalizeGuid raw) (fetchCount st (normalizeGuid raw) + 1) st1"
proof (cases raw st rule: load_shape)
  case empty
  then show ?thesis using assms by simp
next
  case (cached c)
  then show ?thesis using assms by (auto simp: Promise_resolve_def)
next
  case (join c q)
  then show ?thesis using assms by simp
next
  case fetch
  have wf: "wellformed st1"
    using wellformed_load[OF assms(1), of raw] assms(3) by simp
  show ?thesis
    using wf fetch(3) assms(3)
    by (auto simp: inflight_def startFetch_def Let_def fetchCount_def)
qed

text \<open>
  Claim C1. In a state reached by the module, let a call for a vessel start the request
  and return the promise \<open>p\<close>. After any further events that do not complete that request
  (other calls, for this vessel or others, and completions of other requests), a second
  call for the same vessel, however its identifier is spelled, returns the same promise
  \<open>p\<close>, which is still pending, and leaves the state as it is; the request function has been
  called exactly once for the vessel since before the first call.
\<close>

theorem dedup_while_pending:
  assumes "wellformed st"
    and "normalizeGuid raw1 = v" and "normalizeGuid raw2 = v" and "v \<noteq> []"
    and "loadInspectionHistoryForVessel raw1 st = (p, st1)"
    and "fetchLog st1 \<noteq> fetchLog st"
    and "\<forall>outcome. Settle p outcome \<notin> set evs"
  shows "loadInspectionHistoryForVessel raw2 (run e evs st1) = (p, run e evs st1)
       \<and> promises (run e evs st1) ! p = Pending v
       \<and> fetchCount (run e evs st1) v = fetchCount st v + 1"
proof -
  have "inflight p v (fetchCount st v + 1) st1"
    using startFetch_inflight[OF assms(1) _ assms(5,6)] assms(2,4) by simp
  then have fin: "inflight p v (fetchCount st v + 1) (run e evs st1)"
    using assms(7) by (intro inflight_run) auto
  then show ?thesis
    using inflight_join[OF fin assms(3)] unfolding inflight_def by simp
qed


section \<open>The cache: a failed request\<close>

lemma neverRejected_initial: "neverRejected initial"
  by (simp add: neverRejected_def initial_def)

lemma neverRejected_load:
  assumes "neverRejected st"
  shows "neverRejected (snd (loadInspectionHistoryForVessel raw st))"
proof (cases raw st rule: load_shape)
  case empty
  then show ?thesis using assms
    by (auto simp: neverRejected_def Promise_resolve_def nth_append)
next
  case (cached c)
  then show ?thesis using assms
    by (auto simp: neverRejected_def Promise_resolve_def nth_append)
next
  case (join c p)
  then show ?thesis using assms by simp
next
  case fetch
  then show ?thesis using assms
    by (auto simp: neverRejected_def startFetch_def Let_def nth_append)
qed

lemma neverRejected_settle:
  assumes "neverRejected st"
  shows "neverRejected (settle e p outcome st)"
proof (cases "p < length (promises st) \<and> (\<exists>v. promises st ! p = Pending v)")
  case False
  then show ?thesis using assms settle_idle[of p st e outcome] by simp
next
  case True
  then obtain v where p: "p < length (promises st)" "promises st ! p = Pending v" by auto
  obtain c r where eq: "settle e p outcome st =
       st\<lparr>InspectionCache := (InspectionCache st)(v \<mapsto> c),
          promises := (promises st)[p := Fulfilled r]\<rparr>"
    using settle_shape[OF p] by blast
  show ?thesis
    unfolding eq neverRejected_def
  proof (intro allI impI)
    fix q err
    assume "q < length (promises (st\<lparr>InspectionCache := (InspectionCache st)(v \<mapsto> c),
          promises := (promises st)[p := Fulfilled r]\<rparr>))"
    then have q: "q < length (promises st)" by simp
    show "promises (st\<lparr>InspectionCache := (InspectionCache st)(v \<mapsto> c),
          promises := (promises st)[p := Fulfilled r]\<rparr>) ! q \<noteq> Rejected err"
    proof (cases "q = p")
      case True
      then show ?thesis using q by simp
    next
      case False
      then show ?thesis using q assms unfolding neverRejected_def by simp
    qed
  qed
qed

lemma neverRejected_run: "neverRejected st \<Longrightarrow> neverRejected (run e evs st)"
  unfolding run_def
proof (induction evs arbitrary: st)
  case Nil
  then show ?case by simp
next
  case (Cons ev evs)
  have "neverRejected (step e ev st)"
    using Cons.prems by (cases ev) (simp_all add: neverRejected_load neverRejected_settle)
  then show ?case using Cons.IH by simp
qed

text \<open>
  Claim C2. When the request behind the pending promise \<open>p\<close> of a vessel is rejected, the
  entry of the vessel becomes \<^verbatim>\<open>{loaded: false, loading: false, rows: []}\<close> and \<open>p\<close> is
  fulfilled with \<^verbatim>\<open>{rows: [], error: true}\<close>. Every call made for the vessel while the
  request was pending was handed this same \<open>p\<close>, and in no state the module reaches
  from a fresh page is any promise rejected.
\<close>

theorem failure_is_a_result:
  assumes "wellformed st" and "p < length (promises st)" and "promises st ! p = Pending v"
  shows "InspectionCache (settle e p (Inl err) st) v =
           Some \<lparr>loaded = False, loading = False, rows = [], promise = None\<rparr>
       \<and> promises (settle e p (Inl err) st) ! p = Fulfilled \<lparr>r_rows = [], r_error = True\<rparr>
       \<and> (\<forall>raw. normalizeGuid raw = v \<longrightarrow> fst (loadInspectionHistoryForVessel raw st) = p)
       \<and> (\<forall>evs q. q < length (promises (run e evs initial)) \<longrightarrow>
             (\<forall>err'. promises (run e evs initial) ! q \<noteq> Rejected err'))"
proof -
  have a: "InspectionCache (settle e p (Inl err) st) v =
           Some \<lparr>loaded = False, loading = False, rows = [], promise = None\<rparr>"
    and b: "promises (settle e p (Inl err) st) ! p = Fulfilled \<lparr>r_rows = [], r_error = True\<rparr>"
    using assms(2) by (simp_all add: settle_failure[OF assms(2,3)])
  have "inflight p v (fetchCount st v) st"
    using assms by (simp add: inflight_def)
  then have c: "\<forall>raw. normalizeGuid raw = v \<longrightarrow> fst (loadInspectionHistoryForVessel raw st) = p"
    using inflight_join by fastforce
  have d: "\<forall>evs q. q < length (promises (run e evs initial)) \<longrightarrow>
             (\<forall>err'. promises (run e evs initial) ! q \<noteq> Rejected err')"
    using neverRejected_run[OF neverRejected_initial] unfolding neverRejected_def by blast
  show ?thesis using a b c d by blast
qed

lemma normalizeGuid_shipB: "normalizeGuid ''{shipB} '' = ''shipB''"
  by (simp add: normalizeGuid_def trim_def isWhiteSpace_def)

text \<open>
  The statement above for the vessel \<^verbatim>\<open>shipB\<close> whose request ends in an HTTP 500.
\<close>

theorem failure_is_a_result_witness:
  "InspectionCache (settle exampleEnv 0 (Inl (HttpError 500 ''Server Error''))
       (snd (loadInspectionHistoryForVessel ''shipB'' initial))) ''shipB'' =
     Some \<lparr>loaded = False, loading = False, rows = [], promise = None\<rparr>
   \<and> promises (settle exampleEnv 0 (Inl (HttpError 500 ''Server Error''))
       (snd (loadInspectionHistoryForVessel ''shipB'' initial))) ! 0 =
     Fulfilled \<lparr>r_rows = [], r_error = True\<rparr>
   \<and> fst (loadInspectionHistoryForVessel ''{shipB} ''
       (snd (loadInspectionHistoryForVessel ''shipB'' initial))) = 0"
proof -
  let ?st = "snd (loadInspectionHistoryForVessel ''shipB'' initial)"
  have wf: "wellformed ?st"
    by (rule wellformed_load[OF wellformed_initial])
  have n: "normalizeGuid ''shipB'' = ''shipB''"
    by (simp add: normalizeGuid_def trim_def isWhiteSpace_def)
  have st: "?st = \<lparr>InspectionCache = [''shipB'' \<mapsto>
                     \<lparr>loaded = False, loading = True, rows = [], promise = Some 0\<rparr>],
                  promises = [Pending ''shipB''], fetchLog = [''shipB'']\<rparr>"
    by (simp add: loadInspectionHistoryForVessel_def n initial_def startFetch_def Let_def)
  have len: "0 < length (promises ?st)" and pend: "promises ?st ! 0 = Pending ''shipB''"
    by (simp_all add: st)
  show ?thesis
    using failure_is_a_result[OF wf len pend, of exampleEnv "HttpError 500 ''Server Error''"]
      normalizeGuid_shipB by blast
qed


section \<open>The cache: retry, cached rows, empty identifiers\<close>

lemma failedAt_load:
  assumes "failedAt v st" "normalizeGuid raw \<noteq> v"
  shows "failedAt v (snd (loadInspectionHistoryForVessel raw st))"
proof -
  have wf: "wellformed (snd (loadInspectionHistoryForVessel raw st))"
    using assms wellformed_load unfolding failedAt_def by blast
  show ?thesis
  proof (cases raw st rule: load_shape)
    case empty
    then show ?thesis using wf assms by (simp add: failedAt_def Promise_resolve_def)
  next
    case (cached c)
    then show ?thesis using wf assms by (simp add: failedAt_def Promise_resolve_def)
  next
    case (join c q)
    then show ?thesis using assms by simp
  next
    case fetch
    then show ?thesis using wf assms by (simp add: failedAt_def startFetch_def Let_def)
  qed
qed

lemma failedAt_settle:
  assumes "failedAt v st"
  shows "failedAt v (settle e q outcome st)"
proof (cases "q < length (promises st) \<and> (\<exists>w. promises st ! q = Pending w)")
  case False
  then show ?thesis using assms settle_idle[of q st e outcome] by simp
next
  case True
  then obtain w where q: "q < length (promises st)" "promises st ! q = Pending w" by auto
  obtain c r where eq: "settle e q outcome st =
       st\<lparr>InspectionCache := (InspectionCache st)(w \<mapsto> c),
          promises := (promises st)[q := Fulfilled r]\<rparr>"
    using settle_shape[OF q] by blast
  have wf: "wellformed (settle e q outcome st)"
    using assms wellformed_settle unfolding failedAt_def by blast
  have "InspectionCache st w =
      Some \<lparr>loaded = False, loading = True, rows = [], promise = Some q\<rparr>"
    using assms q unfolding failedAt_def wellformed_def by blast
  then have "w \<noteq> v" using assms unfolding failedAt_def by auto
  then show ?thesis
    using wf assms unfolding failedAt_def eq by simp
qed

lemma failedAt_run:
  assumes "failedAt v st" "\<And>raw. Call raw \<in> set evs \<Longrightarrow> normalizeGuid raw \<noteq> v"
  shows "failedAt v (run e evs st)"
  using assms unfolding run_def
proof (induction evs arbitrary: st)
  case Nil
  then show ?case by simp
next
  case (Cons ev evs)
  have "failedAt v (step e ev st)"
  proof (cases ev)
    case (Call raw)
    then have "normalizeGuid raw \<noteq> v" using Cons.prems(2) by simp
    then show ?thesis using failedAt_load[OF Cons.prems(1)] Call by simp
  next
    case (Settle q outcome)
    then show ?thesis using failedAt_settle[OF Cons.prems(1)] by simp
  qed
  then show ?case using Cons.IH Cons.prems(2) by simp
qed

lemma failedAt_after_failure:
  assumes "wellformed st" "p < length (promises st)" "promises st ! p = Pending v"
  shows "failedAt v (settle e p (Inl err) st)"
proof -
  have "v \<noteq> []" using assms unfolding wellformed_def by blast
  moreover have "wellformed (settle e p (Inl err) st)"
    using assms(1) by (rule wellformed_settle)
  ultimately show ?thesis
    unfolding failedAt_def by (simp add: settle_failure[OF assms(2,3)])
qed

lemma length_promises_load:
  "length (promises st) \<le> length (promises (snd (loadInspectionHistoryForVessel raw st)))"
  by (cases raw st rule: load_shape) (simp_all add: Promise_resolve_def startFetch_def Let_def)

lemma length_promises_settle: "length (promises (settle e p outcome st)) = length (promises st)"
proof (cases "p < length (promises st) \<and> (\<exists>v. promises st ! p = Pending v)")
  case False
  then show ?thesis using settle_idle[of p st e outcome] by simp
next
  case True
  then obtain v where p: "p < length (promises st)" "promises st ! p = Pending v" by auto
  obtain c r where eq: "settle e p outcome st =
       st\<lparr>InspectionCache := (InspectionCache st)(v \<mapsto> c),
          promises := (promises st)[p := Fulfilled r]\<rparr>"
    using settle_shape[OF p] by blast
  show ?thesis unfolding eq by simp
qed

lemma length_promises_run: "length (promises st) \<le> length (promises (run e evs st))"
  unfolding run_def
proof (induction evs arbitrary: st)
  case Nil
  then show ?case by simp
next
  case (Cons ev evs)
  have "length (promises st) \<le> length (promises (step e ev st))"
    by (cases ev) (simp_all add: length_promises_load length_promises_settle)
  then show ?case using Cons.IH[of "step e ev st"] by simp
qed

text \<open>
  Claim C3. After the request of a vessel has been rejected, and whatever else happens in
  between short of a call for that vessel, the next call for it creates a new pending
  promise, different from the failed one, sends a new request and marks the entry as
  loading with the new promise.
\<close>

theorem retry_after_failure:
  assumes "wellformed st" and "p < length (promises st)" and "promises st ! p = Pending v"
    and "normalizeGuid raw = v"
    and "\<forall>raw'. Call raw' \<in> set evs \<longrightarrow> normalizeGuid raw' \<noteq> v"
    and "st1 = run e evs (settle e p (Inl err) st)"
    and "loadInspectionHistoryForVessel raw st1 = (p', st2)"
  shows "p' \<noteq> p \<and> p' = length (promises st1)
       \<and> promises st2 ! p' = Pending v
       \<and> fetchLog st2 = fetchLog st1 @ [v]
       \<and> InspectionCache st2 v =
           Some \<lparr>loaded = False, loading = True, rows = [], promise = Some p'\<rparr>"
proof -
  have "failedAt v (settle e p (Inl err) st)"
    using assms(1-3) by (rule failedAt_after_failure)
  then have f: "failedAt v st1"
    unfolding assms(6) using assms(5) by (intro failedAt_run) auto
  have ne: "normalizeGuid raw \<noteq> []" using f assms(4) unfolding failedAt_def by simp
  have "loadInspectionHistoryForVessel raw st1 = startFetch (normalizeGuid raw) st1"
  proof (rule load_fetch[OF ne])
    fix c assume "InspectionCache st1 (normalizeGuid raw) = Some c"
    then show "\<not> loaded c \<and> (\<not> loading c \<or> promise c = None)"
      using f assms(4) unfolding failedAt_def by auto
  qed
  then have eq: "(p', st2) = startFetch v st1" using assms(4,7) by simp
  have "length (promises st) \<le> length (promises st1)"
    unfolding assms(6) using length_promises_run[of "settle e p (Inl err) st" e evs]
    by (simp add: length_promises_settle)
  then have "p < length (promises st1)" using assms(2) by simp
  moreover have "p' = length (promises st1)"
    and "st2 = snd (startFetch v st1)"
    using eq by (simp_all add: startFetch_def Let_def)
  ultimately show ?thesis
    by (simp add: startFetch_def Let_def)
qed

text \<open>
  Claim C4. When the entry of a vessel is loaded, a call for it returns a promise that is
  fulfilled already with the rows of the entry, sends no request and leaves the cache as it
  is.
\<close>

theorem loaded_serves_cache:
  assumes "normalizeGuid raw = v" and "v \<noteq> []"
    and "InspectionCache st v = Some c" and "loaded c"
    and "loadInspectionHistoryForVessel raw st = (p, st')"
  shows "promises st' ! p = Fulfilled \<lparr>r_rows = rows c, r_error = False\<rparr>
       \<and> fetchLog st' = fetchLog st
       \<and> InspectionCache st' = InspectionCache st"
proof -
  have "loadInspectionHistoryForVessel raw st =
          Promise_resolve \<lparr>r_rows = rows c, r_error = False\<rparr> st"
    using assms(1-4) by (intro load_loaded) simp_all
  then have "p = length (promises st)"
    and "st' = st\<lparr>promises := promises st @ [Fulfilled \<lparr>r_rows = rows c, r_error = False\<rparr>]\<rparr>"
    using assms(5) by (simp_all add: Promise_resolve_def)
  then show ?thesis by simp
qed

lemma trim_whitespace:
  assumes "\<forall>c \<in> set s. isWhiteSpace c"
  shows "trim s = []"
proof -
  have h: "dropWhile isWhiteSpace s = []"
    using assms by (induction s) simp_all
  show ?thesis unfolding trim_def h by simp
qed

lemma set_trim: "set (trim s) \<subseteq> set s"
proof -
  have "set (trim s) = set (dropWhile isWhiteSpace (rev (dropWhile isWhiteSpace s)))"
    by (simp add: trim_def)
  also have "\<dots> \<subseteq> set (rev (dropWhile isWhiteSpace s))"
    by (rule set_dropWhileD[THEN subsetI]) 
  also have "\<dots> \<subseteq> set s"
    using set_dropWhileD[of _ isWhiteSpace s] by auto
  finally show ?thesis .
qed

lemma normalizeGuid_blank:
  assumes "raw = [] \<or> (\<forall>c \<in> set raw. isWhiteSpace c) \<or> (\<forall>c \<in> set raw. c = CHR ''{'' \<or> c = CHR ''}'')"
  shows "normalizeGuid raw = []"
proof -
  consider "\<forall>c \<in> set raw. isWhiteSpace c" | "\<forall>c \<in> set raw. c = CHR ''{'' \<or> c = CHR ''}''"
    using assms by auto
  then show ?thesis
  proof cases
    case 1
    then show ?thesis by (simp add: normalizeGuid_def trim_whitespace)
  next
    case 2
    then have "\<forall>c \<in> set (trim raw). c = CHR ''{'' \<or> c = CHR ''}''"
      using set_trim[of raw] by blast
    then show ?thesis
      unfolding normalizeGuid_def filter_empty_conv by blast
  qed
qed

text \<open>
  Claim C10. An identifier that is empty, all white space or all braces normalises to the
  empty string; and for every identifier that normalises to the empty string the call
  returns a promise fulfilled already with \<^verbatim>\<open>{rows: []}\<close> and no error flag, sends no
  request and leaves the cache, and so its set of entries, as it is.
\<close>

theorem empty_id_resolves_empty:
  "(raw = [] \<or> (\<forall>c \<in> set raw. isWhiteSpace c) \<or> (\<forall>c \<in> set raw. c = CHR ''{'' \<or> c = CHR ''}'')
      \<longrightarrow> normalizeGuid raw = [])
   \<and> (normalizeGuid raw = [] \<longrightarrow>
        promises (snd (loadInspectionHistoryForVessel raw st)) !
            fst (loadInspectionHistoryForVessel raw st) =
          Fulfilled \<lparr>r_rows = [], r_error = False\<rparr>
        \<and> fetchLog (snd (loadInspectionHistoryForVessel raw st)) = fetchLog st
        \<and> InspectionCache (snd (loadInspectionHistoryForVessel raw st)) = InspectionCache st)"
proof (intro conjI impI)
  assume "raw = [] \<or> (\<forall>c \<in> set raw. isWhiteSpace c) \<or> (\<forall>c \<in> set raw. c = CHR ''{'' \<or> c = CHR ''}'')"
  then show "normalizeGuid raw = []" by (rule normalizeGuid_blank)
next
  assume e: "normalizeGuid raw = []"
  show "promises (snd (loadInspectionHistoryForVessel raw st)) !
            fst (loadInspectionHistoryForVessel raw st) =
          Fulfilled \<lparr>r_rows = [], r_error = False\<rparr>"
    by (simp add: load_empty[OF e] Promise_resolve_def)
  show "fetchLog (snd (loadInspectionHistoryForVessel raw st)) = fetchLog st"
    by (simp add: load_empty[OF e] Promise_resolve_def)
  show "InspectionCache (snd (loadInspectionHistoryForVessel raw st)) = InspectionCache st"
    by (simp add: load_empty[OF e] Promise_resolve_def)
qed


section \<open>The cache: which rows are kept\<close>

lemma collectRows_eq:
  "collectRows e rs outRows = outRows @ [rowOf r. Some r \<leftarrow> rs, keptIncident e r]"
proof (induction rs arbitrary: outRows)
  case Nil
  then show ?case by simp
next
  case (Cons x rs)
  show ?case
  proof (cases x)
    case None
    then show ?thesis using Cons.IH by simp
  next
    case (Some r)
    then show ?thesis using Cons.IH
      by (cases "ethi_inspectionenddateandtime r")
         (simp_all add: keptIncident_def rowOf_def isWithinLastYears_def)
  qed
qed

lemma mset_placeRow: "mset (placeRow r xs) = add_mset r (mset xs)"
  by (induction xs) simp_all

lemma mset_sortRows: "mset (sortRows rs) = mset rs"
  unfolding sortRows_def by (induction rs) (simp_all add: mset_placeRow)

lemma set_placeRow: "set (placeRow r xs) = insert r (set xs)"
  by (induction xs) auto

lemma newestFirst_placeRow:
  "sorted_wrt (\<lambda>a b. date b \<le> date a) xs \<Longrightarrow>
   sorted_wrt (\<lambda>a b. date b \<le> date a) (placeRow r xs)"
proof (induction xs)
  case Nil
  then show ?case by simp
next
  case (Cons x xs)
  show ?case
  proof (cases "date r < date x")
    case True
    then show ?thesis using Cons by (auto simp: set_placeRow)
  next
    case False
    then have "date x \<le> date r" by simp
    then show ?thesis using Cons.prems by (auto intro: order_trans)
  qed
qed

lemma newestFirst_sortRows: "sorted_wrt (\<lambda>a b. date b \<le> date a) (sortRows rs)"
  unfolding sortRows_def by (induction rs) (simp_all add: newestFirst_placeRow)

text \<open>
  Claim C9, as the code has it. When the request behind the pending promise \<open>p\<close> of a
  vessel answers, the success handler keeps the rows whose end date is present, parses and
  lies within the last five years, turns them into \<^verbatim>\<open>{date, score}\<close> and sorts them newest
  first; the entry of the vessel is loaded with exactly these rows and \<open>p\<close> is fulfilled
  with the same rows and no error flag.
\<close>

theorem cache_keeps_recent_rows:
  assumes "p < length (promises st)" and "promises st ! p = Pending v"
  shows "\<exists>c. InspectionCache (settle e p (Inr d) st) v = Some c \<and> loaded c
           \<and> promises (settle e p (Inr d) st) ! p = Fulfilled \<lparr>r_rows = rows c, r_error = False\<rparr>
           \<and> mset (rows c) = mset (recentRows e d)
           \<and> sorted_wrt (\<lambda>a b. date b \<le> date a) (rows c)"
proof -
  let ?out = "sortRows (collectRows e (odataToArray d) [])"
  have "InspectionCache (settle e p (Inr d) st) v =
          Some \<lparr>loaded = True, loading = False, rows = ?out, promise = None\<rparr>"
    and "promises (settle e p (Inr d) st) ! p = Fulfilled \<lparr>r_rows = ?out, r_error = False\<rparr>"
    using assms(1) by (simp_all add: settle_success[OF assms])
  moreover have "mset ?out = mset (recentRows e d)"
    by (simp add: mset_sortRows collectRows_eq recentRows_def)
  moreover have "sorted_wrt (\<lambda>a b. date b \<le> date a) ?out"
    by (rule newestFirst_sortRows)
  ultimately show ?thesis by simp
qed

lemma pendingShipA_eq:
  "pendingShipA = \<lparr>InspectionCache = [''shipA'' \<mapsto>
                     \<lparr>loaded = False, loading = True, rows = [], promise = Some 0\<rparr>],
                  promises = [Pending ''shipA''], fetchLog = [''shipA'']\<rparr>"
  by (simp add: pendingShipA_def loadInspectionHistoryForVessel_def normalizeGuid_def trim_def
      isWhiteSpace_def initial_def startFetch_def Let_def)

lemma example_collect:
  "sortRows (collectRows exampleEnv (odataToArray exampleResponse) []) =
     [\<lparr>date = ''2025-03-15'', score = ''98/100''\<rparr>]"
  by code_simp

lemma example_fetched:
  "fetchedRows exampleResponse =
     [\<lparr>date = ''2025-03-15'', score = ''98/100''\<rparr>, \<lparr>date = ''2015-01-01'', score = ''90/100''\<rparr>]"
  by code_simp

text \<open>
  The statement above for \<^verbatim>\<open>shipA\<close> and the example response.
\<close>

theorem cache_keeps_recent_rows_witness:
  "\<exists>c. InspectionCache (settle exampleEnv 0 (Inr exampleResponse) pendingShipA) ''shipA'' = Some c
       \<and> loaded c
       \<and> promises (settle exampleEnv 0 (Inr exampleResponse) pendingShipA) ! 0 =
           Fulfilled \<lparr>r_rows = rows c, r_error = False\<rparr>
       \<and> mset (rows c) = mset (recentRows exampleEnv exampleResponse)
       \<and> sorted_wrt (\<lambda>a b. date b \<le> date a) (rows c)"
proof -
  have len: "0 < length (promises pendingShipA)"
    and pend: "promises pendingShipA ! 0 = Pending ''shipA''"
    by (simp_all add: pendingShipA_eq)
  show ?thesis
    using cache_keeps_recent_rows[OF len pend, of exampleEnv exampleResponse] .
qed

text \<open>
  Claim C9 as it is worded fails: of the two rows of the example response only the one of
  2025 reaches the cache; the row of 2015 is older than five years and is left out.
\<close>

theorem fetched_rows_cached_unfiltered_counterexample:
  "rows (the (InspectionCache (settle exampleEnv 0 (Inr exampleResponse) pendingShipA) ''shipA'')) =
     [\<lparr>date = ''2025-03-15'', score = ''98/100''\<rparr>]
   \<and> fetchedRows exampleResponse =
     [\<lparr>date = ''2025-03-15'', score = ''98/100''\<rparr>, \<lparr>date = ''2015-01-01'', score = ''90/100''\<rparr>]
   \<and> rows (the (InspectionCache (settle exampleEnv 0 (Inr exampleResponse) pendingShipA) ''shipA''))
       \<noteq> fetchedRows exampleResponse"
proof -
  have len: "0 < length (promises pendingShipA)"
    and pend: "promises pendingShipA ! 0 = Pending ''shipA''"
    by (simp_all add: pendingShipA_eq)
  have "rows (the (InspectionCache (settle exampleEnv 0 (Inr exampleResponse) pendingShipA) ''shipA'')) =
     [\<lparr>date = ''2025-03-15'', score = ''98/100''\<rparr>]"
    by (simp add: settle_success[OF len pend] example_collect)
  then show ?thesis by (simp add: example_fetched)
qed


section \<open>The cache: runs on concrete vessels\<close>

lemma normalizeGuid_examples:
  "normalizeGuid ''shipA'' = ''shipA''"
  "normalizeGuid '' {shipA}'' = ''shipA''"
  "normalizeGuid ''shipB'' = ''shipB''"
  "normalizeGuid ''{}'' = []"
  by (simp_all add: normalizeGuid_def trim_def isWhiteSpace_def)

text \<open>
  The statement above on a fresh page: \<^verbatim>\<open>shipA\<close> is loaded, then \<^verbatim>\<open>shipB\<close> is loaded,
  \<^verbatim>\<open>shipA\<close> is asked for again and the request of \<^verbatim>\<open>shipB\<close> fails; a further call for
  \<^verbatim>\<open>shipA\<close> still gets promise 0 and one request has been sent for it.
\<close>

theorem dedup_while_pending_witness:
  "loadInspectionHistoryForVessel '' {shipA}''
       (run exampleEnv [Call ''shipB'', Call ''shipA'', Settle 1 (Inl OtherError)] pendingShipA) =
     (0, run exampleEnv [Call ''shipB'', Call ''shipA'', Settle 1 (Inl OtherError)] pendingShipA)
   \<and> promises (run exampleEnv [Call ''shipB'', Call ''shipA'', Settle 1 (Inl OtherError)] pendingShipA) ! 0 =
       Pending ''shipA''
   \<and> fetchCount (run exampleEnv [Call ''shipB'', Call ''shipA'', Settle 1 (Inl OtherError)] pendingShipA)
       ''shipA'' = 1"
proof -
  have first: "loadInspectionHistoryForVessel ''shipA'' initial = (0, pendingShipA)"
    by (simp add: pendingShipA_def loadInspectionHistoryForVessel_def normalizeGuid_examples
        initial_def startFetch_def Let_def)
  have started: "fetchLog pendingShipA \<noteq> fetchLog initial"
    by (simp add: pendingShipA_eq initial_def)
  have quiet: "\<forall>outcome. Settle 0 outcome \<notin> set [Call ''shipB'', Call ''shipA'', Settle 1 (Inl OtherError)]"
    by simp
  have ne: "''shipA'' \<noteq> []" by simp
  have zero: "fetchCount initial ''shipA'' = 0"
    by (simp add: fetchCount_def initial_def)
  show ?thesis
    using dedup_while_pending[OF wellformed_initial normalizeGuid_examples(1)
        normalizeGuid_examples(2) ne first started quiet, of exampleEnv] zero
    by simp
qed

text \<open>
  The statement above for \<^verbatim>\<open>shipB\<close>: its request fails, \<^verbatim>\<open>shipA\<close> is loaded, and the next
  call for \<^verbatim>\<open>shipB\<close> sends the third request of the page.
\<close>

theorem retry_after_failure_witness:
  "fst (loadInspectionHistoryForVessel ''shipB''
          (run exampleEnv [Call ''shipA''] (settle exampleEnv 0 (Inl OtherError)
             (snd (loadInspectionHistoryForVessel ''shipB'' initial))))) = 2
   \<and> fetchLog (snd (loadInspectionHistoryForVessel ''shipB''
          (run exampleEnv [Call ''shipA''] (settle exampleEnv 0 (Inl OtherError)
             (snd (loadInspectionHistoryForVessel ''shipB'' initial)))))) =
       [''shipB'', ''shipA'', ''shipB'']"
proof -
  let ?st = "snd (loadInspectionHistoryForVessel ''shipB'' initial)"
  let ?st1 = "run exampleEnv [Call ''shipA''] (settle exampleEnv 0 (Inl OtherError) ?st)"
  have st: "?st = \<lparr>InspectionCache = [''shipB'' \<mapsto>
                     \<lparr>loaded = False, loading = True, rows = [], promise = Some 0\<rparr>],
                  promises = [Pending ''shipB''], fetchLog = [''shipB'']\<rparr>"
    by (simp add: loadInspectionHistoryForVessel_def normalizeGuid_examples initial_def
        startFetch_def Let_def)
  have wf: "wellformed ?st"
    by (rule wellformed_load[OF wellformed_initial])
  have len: "0 < length (promises ?st)" and pend: "promises ?st ! 0 = Pending ''shipB''"
    by (simp_all add: st)
  have others: "\<forall>raw'. Call raw' \<in> set [Call ''shipA''] \<longrightarrow> normalizeGuid raw' \<noteq> ''shipB''"
    by (simp add: normalizeGuid_examples)
  have st1: "length (promises ?st1) = 2" "fetchLog ?st1 = [''shipB'', ''shipA'']"
    unfolding st
    by (simp_all add: run_def settle_def thenStage_def catchStage_def onRejected_def
        loadInspectionHistoryForVessel_def normalizeGuid_examples startFetch_def Let_def)
  show ?thesis
    using retry_after_failure[OF wf len pend normalizeGuid_examples(3) others refl
        surjective_pairing, of exampleEnv OtherError] st1
    by simp
qed

text \<open>
  The statement above for \<^verbatim>\<open>shipA\<close> after its request has answered with the example
  response.
\<close>

theorem loaded_serves_cache_witness:
  "promises (snd (loadInspectionHistoryForVessel '' {shipA}''
        (settle exampleEnv 0 (Inr exampleResponse) pendingShipA))) !
      fst (loadInspectionHistoryForVessel '' {shipA}''
        (settle exampleEnv 0 (Inr exampleResponse) pendingShipA)) =
     Fulfilled \<lparr>r_rows = [\<lparr>date = ''2025-03-15'', score = ''98/100''\<rparr>], r_error = False\<rparr>
   \<and> fetchLog (snd (loadInspectionHistoryForVessel '' {shipA}''
        (settle exampleEnv 0 (Inr exampleResponse) pendingShipA))) = [''shipA'']"
proof -
  let ?st = "settle exampleEnv 0 (Inr exampleResponse) pendingShipA"
  have len: "0 < length (promises pendingShipA)"
    and pend: "promises pendingShipA ! 0 = Pending ''shipA''"
    by (simp_all add: pendingShipA_eq)
  have entry: "InspectionCache ?st ''shipA'' =
      Some \<lparr>loaded = True, loading = False,
            rows = [\<lparr>date = ''2025-03-15'', score = ''98/100''\<rparr>], promise = None\<rparr>"
    by (simp add: settle_success[OF len pend] example_collect)
  have log: "fetchLog ?st = fetchLog pendingShipA"
    by (simp add: settle_success[OF len pend])
  have log': "fetchLog pendingShipA = [''shipA'']"
    by (simp add: pendingShipA_eq)
  have isLoaded: "loaded \<lparr>loaded = True, loading = False,
            rows = [\<lparr>date = ''2025-03-15'', score = ''98/100''\<rparr>], promise = None\<rparr>"
    by simp
  have ne: "''shipA'' \<noteq> []" by simp
  show ?thesis
    using loaded_serves_cache[OF normalizeGuid_examples(2) ne entry isLoaded surjective_pairing]
      log log'
    by simp
qed

text \<open>
  The statement above for an identifier of a no-break space and a space while
  \<^verbatim>\<open>shipA\<close> is loading.
\<close>

theorem empty_id_resolves_empty_witness:
  "normalizeGuid [CHR 0xA0, CHR '' ''] = []
   \<and> promises (snd (loadInspectionHistoryForVessel [CHR 0xA0, CHR '' ''] pendingShipA)) !
        fst (loadInspectionHistoryForVessel [CHR 0xA0, CHR '' ''] pendingShipA) =
      Fulfilled \<lparr>r_rows = [], r_error = False\<rparr>
   \<and> fetchLog (snd (loadInspectionHistoryForVessel [CHR 0xA0, CHR '' ''] pendingShipA)) = [''shipA'']
   \<and> dom (InspectionCache (snd (loadInspectionHistoryForVessel [CHR 0xA0, CHR '' ''] pendingShipA))) =
       {''shipA''}"
proof -
  have blank: "[CHR 0xA0, CHR '' ''] = [] \<or> (\<forall>c \<in> set [CHR 0xA0, CHR '' '']. isWhiteSpace c)
       \<or> (\<forall>c \<in> set [CHR 0xA0, CHR '' '']. c = CHR ''{'' \<or> c = CHR ''}'')"
    by (simp add: isWhiteSpace_def)
  have log: "fetchLog pendingShipA = [''shipA'']"
    and keys: "dom (InspectionCache pendingShipA) = {''shipA''}"
    by (simp_all add: pendingShipA_eq)
  show ?thesis
    using empty_id_resolves_empty[of "[CHR 0xA0, CHR '' '']" pendingShipA] blank log keys
    by simp
qed


section \<open>The filter: what one pass does to a liner\<close>

lemma showShips_eq:
  "showShips q lm (map (\<lambda>s. (s, nameMatch q s)) ss) n =
     (map (shipAfter q lm) ss, n + length (filter (shipShown q lm) ss))"
proof (induction ss arbitrary: n)
  case Nil
  then show ?case by simp
next
  case (Cons s ss)
  show ?case
    using Cons.IH by (cases lm) (simp_all add: shipAfter_def shipShown_def)
qed

lemma list_ex_matches:
  "list_ex snd (map (\<lambda>s. (s, nameMatch q s)) ss) = list_ex (nameMatch q) ss"
  by (induction ss) simp_all

lemma shipAfter_empty: "shipAfter [] lm s = s\<lparr>display := []\<rparr>"
  by (simp add: shipAfter_def shipShown_def)

lemma filterLiner_eq:
  "filterLiner q l (a, b) = (linerAfter q l, a + shownLiners q l, b + shownShips q l)"
proof (cases "linerShown q l")
  case False
  then show ?thesis
    by (simp add: filterLiner_def linerAfter_def shownLiners_def shownShips_def
        linerShown_def list_ex_matches)
next
  case shown: True
  show ?thesis
  proof (cases "q = []")
    case True
    then show ?thesis
      using shown
      by (simp add: filterLiner_def linerAfter_def shownLiners_def shownShips_def
          linerShown_def list_ex_matches showShips_eq shipAfter_empty o_def)
  next
    case False
    have vis: "q = [] \<or> nameMatch q l \<or> list_ex (nameMatch q) (ships l)"
      using shown by (simp add: linerShown_def)
    show ?thesis
      using False vis
      by (simp add: filterLiner_def list_ex_matches showShips_eq Let_def
          linerAfter_def[of q l] shownLiners_def[of q l] shownShips_def[of q l] shown)
  qed
qed

lemma filterLiners_eq:
  "filterLiners q ls (a, b) =
     (map (linerAfter q) ls, a + sum_list (map (shownLiners q) ls),
      b + sum_list (map (shownShips q) ls))"
  by (induction ls arbitrary: a b) (simp_all add: filterLiner_eq)

lemma applyFilter_eq:
  "applyFilter raw tree =
     (map (linerAfter (toLowerCase (trim raw))) tree,
      sum_list (map (shownLiners (toLowerCase (trim raw))) tree),
      sum_list (map (shownShips (toLowerCase (trim raw))) tree))"
  by (simp add: applyFilter_def filterLiners_eq)


section \<open>The filter and the collapse of a liner\<close>

lemma nameMatch_shipAfter [simp]: "nameMatch q (shipAfter q' lm s) = nameMatch q s"
  by (simp add: nameMatch_def lowerName_def shipAfter_def)

lemma nameMatch_linerAfter [simp]: "nameMatch q (linerAfter q' l) = nameMatch q l"
  by (simp add: nameMatch_def lowerName_def linerAfter_def)

lemma shipShown_shipAfter [simp]: "shipShown q lm (shipAfter q' lm' s) = shipShown q lm s"
  by (simp add: shipShown_def)

lemma shipAfter_idem [simp]: "shipAfter q lm (shipAfter q lm s) = shipAfter q lm s"
proof (cases "shipShown q lm s")
  case True
  then have "shipShown q lm (s\<lparr>display := []\<rparr>)"
    by (simp add: shipShown_def nameMatch_def lowerName_def)
  then show ?thesis using True by (simp add: shipAfter_def)
next
  case False
  then have "\<not> shipShown q lm (s\<lparr>display := ''none'', open := False\<rparr>)"
    by (simp add: shipShown_def nameMatch_def lowerName_def)
  then show ?thesis using False by (simp add: shipAfter_def)
qed

lemma list_ex_nameMatch_map:
  assumes "\<And>s. nameMatch q (f s) = nameMatch q s"
  shows "list_ex (nameMatch q) (map f ss) = list_ex (nameMatch q) ss"
  by (induction ss) (simp_all add: assms)

lemma nameMatch_flags [simp]:
  "nameMatch q (s\<lparr>open := b, display := d\<rparr>) = nameMatch q s"
  "nameMatch q (s\<lparr>display := d, open := b\<rparr>) = nameMatch q s"
  "nameMatch q (s\<lparr>display := d\<rparr>) = nameMatch q s"
  "nameMatch q (s\<lparr>open := b\<rparr>) = nameMatch q s"
  by (simp_all add: nameMatch_def lowerName_def)

lemma linerShown_linerAfter [simp]: "linerShown q (linerAfter q l) = linerShown q l"
proof -
  have "list_ex (nameMatch q) (ships (linerAfter q l)) = list_ex (nameMatch q) (ships l)"
    by (simp add: linerAfter_def list_ex_nameMatch_map)
  then show ?thesis by (simp add: linerShown_def)
qed

lemma linerAfter_empty: "linerAfter [] l = collapsed l"
  by (simp add: linerAfter_def linerShown_def collapsed_def)

lemma linerAfter_idem: "linerAfter q (linerAfter q l) = linerAfter q l"
proof -
  have shown: "linerShown q (linerAfter q l) = linerShown q l" by simp
  have nm: "nameMatch q (linerAfter q l) = nameMatch q l" by simp
  show ?thesis
  proof (cases "linerShown q l")
    case False
    then have eq: "linerAfter q l = l\<lparr>display := ''none'', open := False,
          ships := map (\<lambda>s. s\<lparr>open := False, display := []\<rparr>) (ships l)\<rparr>"
      by (simp add: linerAfter_def)
    have "\<not> linerShown q (linerAfter q l)" using shown False by simp
    then have "linerAfter q (linerAfter q l) = (linerAfter q l)\<lparr>display := ''none'', open := False,
          ships := map (\<lambda>s. s\<lparr>open := False, display := []\<rparr>) (ships (linerAfter q l))\<rparr>"
      by (simp add: linerAfter_def[of q "linerAfter q l"])
    also have "\<dots> = linerAfter q l"
      unfolding eq by (simp add: o_def)
    finally show ?thesis .
  next
    case True
    then have sh: "linerShown q (linerAfter q l)" using shown by simp
    show ?thesis
    proof (cases "q = []")
      case e: True
      have "collapsed (collapsed l) = collapsed l"
        by (simp add: collapsed_def o_def)
      then show ?thesis unfolding e linerAfter_empty .
    next
      case ne: False
      have eq: "linerAfter q l = l\<lparr>display := [], open := True,
          ships := map (shipAfter q (nameMatch q l)) (ships l)\<rparr>"
        using True ne by (simp add: linerAfter_def)
      have "linerAfter q (linerAfter q l) = (linerAfter q l)\<lparr>display := [], open := True,
          ships := map (shipAfter q (nameMatch q l)) (ships (linerAfter q l))\<rparr>"
        using sh ne nm by (simp add: linerAfter_def[of q "linerAfter q l"])
      also have "\<dots> = linerAfter q l"
        unfolding eq by (simp add: o_def)
      finally show ?thesis .
    qed
  qed
qed

lemma shownLiners_linerAfter: "shownLiners q (linerAfter q l) = shownLiners q l"
  by (simp add: shownLiners_def)

lemma shipShown_flags [simp]:
  "shipShown q lm (s\<lparr>display := d, open := b\<rparr>) = shipShown q lm s"
  "shipShown q lm (s\<lparr>open := b, display := d\<rparr>) = shipShown q lm s"
  by (simp_all add: shipShown_def)

lemma shownShips_linerAfter: "shownShips q (linerAfter q l) = shownShips q l"
proof (cases "linerShown q l")
  case False
  then show ?thesis by (simp add: shownShips_def)
next
  case True
  have "length (filter (shipShown q (nameMatch q l)) (ships (linerAfter q l))) =
        length (filter (shipShown q (nameMatch q l)) (ships l))"
    using True
    by (simp add: linerAfter_def o_def)
  then show ?thesis using True by (simp add: shownShips_def)
qed

text \<open>
  Claim C7. For every query and every tree, running the filter a second time with the same
  query on the tree the first run left gives the same tree, with the same \<^verbatim>\<open>open\<close> and
  \<^verbatim>\<open>display\<close> on every liner and ship, and the same two counters, as the first run.
\<close>

theorem applyFilter_twice_is_once:
  "applyFilter raw (fst (applyFilter raw tree)) = applyFilter raw tree"
  by (simp add: applyFilter_eq o_def linerAfter_idem shownLiners_linerAfter shownShips_linerAfter)

text \<open>
  Claim C6. A query that is empty or all white space leaves every liner and every ship shown
  (\<^verbatim>\<open>display\<close> empty) and closed, and changes nothing else of the tree. This holds for
  every tree the filter starts from, so also for the tree an earlier filter has left.
\<close>

theorem empty_query_resets_tree:
  assumes "\<forall>c \<in> set raw. isWhiteSpace c"
  shows "fst (applyFilter raw tree) = map collapsed tree
       \<and> (\<forall>l \<in> set (fst (applyFilter raw tree)).
             display l = [] \<and> \<not> open l \<and> (\<forall>s \<in> set (ships l). display s = [] \<and> \<not> open s))"
proof -
  have q: "toLowerCase (trim raw) = []"
    using trim_whitespace[OF assms] by (simp add: toLowerCase_def)
  have eq: "fst (applyFilter raw tree) = map collapsed tree"
    by (simp add: applyFilter_eq q linerAfter_empty)
  have "\<forall>l \<in> set (map collapsed tree).
          display l = [] \<and> \<not> open l \<and> (\<forall>s \<in> set (ships l). display s = [] \<and> \<not> open s)"
    by (auto simp: collapsed_def)
  then show ?thesis using eq by simp
qed

text \<open>
  Claim C8. When the name of a liner contains the query, the pass shows the liner and every
  one of its ships, whether or not the name of any ship matches, and a tree of that liner
  alone counts one liner and all its ships. For the catalog of GroupX with Ship1 and Ship2
  the query \<^verbatim>\<open>groupx\<close>, which no ship name contains, counts 1 liner and 2 ships and shows
  both ships.
\<close>

theorem liner_name_match_shows_all_ships:
  "(i < length tree \<and> indexOf (lowerName (tree ! i)) (toLowerCase (trim raw)) \<noteq> -1 \<longrightarrow>
      display (fst (applyFilter raw tree) ! i) = []
      \<and> length (ships (fst (applyFilter raw tree) ! i)) = length (ships (tree ! i))
      \<and> (\<forall>s \<in> set (ships (fst (applyFilter raw tree) ! i)). display s = []))
   \<and> (indexOf (lowerName l) (toLowerCase (trim raw)) \<noteq> -1 \<longrightarrow>
        snd (applyFilter raw [l]) = (1, length (ships l)))
   \<and> snd (applyFilter ''groupx'' catalogX) = (1, 2)
   \<and> map display (ships (fst (applyFilter ''groupx'' catalogX) ! 0)) = [[], []]
   \<and> list_ex (\<lambda>s. indexOf (lowerName s) ''groupx'' \<noteq> -1) (ships (catalogX ! 0)) = False"
proof (intro conjI impI)
  let ?q = "toLowerCase (trim raw)"
  have after: "\<And>l. nameMatch ?q l \<Longrightarrow>
      display (linerAfter ?q l) = [] \<and> length (ships (linerAfter ?q l)) = length (ships l) \<and>
      (\<forall>s \<in> set (ships (linerAfter ?q l)). display s = [])"
    by (auto simp: linerAfter_def linerShown_def shipAfter_def shipShown_def)
  {
    assume h: "i < length tree \<and> indexOf (lowerName (tree ! i)) ?q \<noteq> -1"
    then have m: "nameMatch ?q (tree ! i)" by (simp add: nameMatch_def)
    have nth: "fst (applyFilter raw tree) ! i = linerAfter ?q (tree ! i)"
      using h by (simp add: applyFilter_eq)
    show "display (fst (applyFilter raw tree) ! i) = []"
      and "length (ships (fst (applyFilter raw tree) ! i)) = length (ships (tree ! i))"
      and "\<forall>s \<in> set (ships (fst (applyFilter raw tree) ! i)). display s = []"
      unfolding nth using after[OF m] by blast+
  }
  {
    assume "indexOf (lowerName l) ?q \<noteq> -1"
    then have m: "nameMatch ?q l" by (simp add: nameMatch_def)
    then have "shownLiners ?q l = 1" "shownShips ?q l = length (ships l)"
      by (simp_all add: shownLiners_def shownShips_def linerShown_def shipShown_def)
    then show "snd (applyFilter raw [l]) = (1, length (ships l))"
      by (simp add: applyFilter_eq)
  }
  show "snd (applyFilter ''groupx'' catalogX) = (1, 2)"
    by code_simp
  show "map display (ships (fst (applyFilter ''groupx'' catalogX) ! 0)) = [[], []]"
    by code_simp
  show "list_ex (\<lambda>s. indexOf (lowerName s) ''groupx'' \<noteq> -1) (ships (catalogX ! 0)) = False"
    by code_simp
qed

lemma fold_shipToggle_closed:
  "\<forall>s \<in> set ss. \<not> open s \<Longrightarrow> fold shipToggle ss st = st"
  by (induction ss arbitrary: st) (simp_all add: shipToggle_def)

text \<open>
  Claim C5. When the user closes an open liner, the liner is closed, every ship of it is
  closed, the state of the inspection cache is what it was, and the other liners are
  untouched.
\<close>

theorem closing_liner_closes_ships:
  assumes "i < length (browseTree pg)" and "open (browseTree pg ! i)"
  shows "\<not> open (browseTree (toggleLiner i pg) ! i)
       \<and> (\<forall>s \<in> set (ships (browseTree (toggleLiner i pg) ! i)). \<not> open s)
       \<and> inspections (toggleLiner i pg) = inspections pg
       \<and> (\<forall>j < length (browseTree pg). j \<noteq> i \<longrightarrow>
             browseTree (toggleLiner i pg) ! j = browseTree pg ! j)"
proof -
  let ?l = "browseTree pg ! i"
  let ?l2 = "?l\<lparr>open := False, ships := map (\<lambda>s. s\<lparr>open := False\<rparr>) (ships ?l)\<rparr>"
  let ?changed = "map snd (filter (\<lambda>(s, s'). open s \<noteq> open s')
                     (zip (ships ?l) (map (\<lambda>s. s\<lparr>open := False\<rparr>) (ships ?l))))"
  have "\<forall>s \<in> set ?changed. \<not> open s"
    by (auto dest!: set_zip_rightD)
  then have quiet: "fold shipToggle ?changed (inspections pg) = inspections pg"
    by (rule fold_shipToggle_closed)
  have eq: "toggleLiner i pg =
      \<lparr>browseTree = (browseTree pg)[i := ?l2], inspections = inspections pg\<rparr>"
    using assms quiet by (simp add: toggleLiner_def linerToggle_def Let_def)
  show ?thesis
    unfolding eq using assms(1) by (auto)
qed


section \<open>The tree: runs on a small catalog\<close>

lemma filtered_ship1:
  "applyFilter ''Ship1'' browsedX =
     ([\<lparr>summaryText = ''GroupX'', open = True, display = [],
        ships = [\<lparr>summaryText = ''Ship1'', open = True, display = [], vesselId = ''id1''\<rparr>,
                 \<lparr>summaryText = ''Ship2'', open = False, display = ''none'', vesselId = ''id2''\<rparr>]\<rparr>],
      1, 1)"
  by code_simp

text \<open>
  The statement above on the browsed catalog and the query \<^verbatim>\<open>Ship1\<close>: GroupX is shown and
  open, Ship1 is shown, Ship2 is hidden and closed, one liner and one ship are counted,
  after the second run as after the first.
\<close>

theorem applyFilter_twice_is_once_witness:
  "applyFilter ''Ship1'' (fst (applyFilter ''Ship1'' browsedX)) =
     ([\<lparr>summaryText = ''GroupX'', open = True, display = [],
        ships = [\<lparr>summaryText = ''Ship1'', open = True, display = [], vesselId = ''id1''\<rparr>,
                 \<lparr>summaryText = ''Ship2'', open = False, display = ''none'', vesselId = ''id2''\<rparr>]\<rparr>],
      1, 1)"
  using applyFilter_twice_is_once[of "''Ship1''" browsedX] filtered_ship1 by simp

text \<open>
  The statement above after the browsed catalog has been filtered with \<^verbatim>\<open>Ship1\<close>: a
  query of a no-break space, a space and a TAB gives back the collapsed catalog.
\<close>

theorem empty_query_resets_tree_witness:
  "fst (applyFilter [CHR 0xA0, CHR '' '', CHR 0x09] (fst (applyFilter ''Ship1'' browsedX))) = catalogX"
proof -
  have blank: "\<forall>c \<in> set [CHR 0xA0, CHR '' '', CHR 0x09]. isWhiteSpace c"
    by (simp add: isWhiteSpace_def)
  have "map collapsed (fst (applyFilter ''Ship1'' browsedX)) = catalogX"
    unfolding filtered_ship1 by (simp add: collapsed_def catalogX_def)
  then show ?thesis
    using empty_query_resets_tree[OF blank, of "fst (applyFilter ''Ship1'' browsedX)"] by simp
qed

text \<open>
  The statement above for the liner named in French capitals and the same name typed in
  small letters, with a no-break space before it and a space after it.
\<close>

theorem liner_name_match_shows_all_ships_witness:
  "display (fst (applyFilter (CHR 0xA0 # ''croisi'' @ [CHR 0xE8] @ ''res '') catalogFr) ! 0) = []
   \<and> length (ships (fst (applyFilter (CHR 0xA0 # ''croisi'' @ [CHR 0xE8] @ ''res '') catalogFr) ! 0)) = 2
   \<and> list_all (\<lambda>s. display s = [])
         (ships (fst (applyFilter (CHR 0xA0 # ''croisi'' @ [CHR 0xE8] @ ''res '') catalogFr) ! 0))
   \<and> snd (applyFilter (CHR 0xA0 # ''croisi'' @ [CHR 0xE8] @ ''res '') [catalogFr ! 0]) = (1, 2)"
proof -
  have hyp: "0 < length catalogFr \<and>
      indexOf (lowerName (catalogFr ! 0))
        (toLowerCase (trim (CHR 0xA0 # ''croisi'' @ [CHR 0xE8] @ ''res ''))) \<noteq> -1"
    by code_simp
  have two: "length (ships (catalogFr ! 0)) = 2"
    by (simp add: catalogFr_def)
  show ?thesis
    using liner_name_match_shows_all_ships[of 0 catalogFr
        "CHR 0xA0 # ''croisi'' @ [CHR 0xE8] @ ''res ''" "catalogFr ! 0"] hyp two
    by (simp add: list_all_iff)
qed

text \<open>
  The statement above for GroupX of the browsed catalog, closed while \<^verbatim>\<open>shipA\<close> is loading.
\<close>

theorem closing_liner_closes_ships_witness:
  "\<not> open (browseTree (toggleLiner 0 pageX) ! 0)
   \<and> list_all (\<lambda>s. \<not> open s) (ships (browseTree (toggleLiner 0 pageX) ! 0))
   \<and> inspections (toggleLiner 0 pageX) = pendingShipA"
proof -
  have len: "0 < length (browseTree pageX)" and isOpen: "open (browseTree pageX ! 0)"
    by (simp_all add: pageX_def browsedX_def)
  have "inspections pageX = pendingShipA"
    by (simp add: pageX_def)
  then show ?thesis
    using closing_liner_closes_ships[OF len isOpen] by (simp add: list_all_iff)
qed

end
